theory Spec2Isabelle
  imports Main
begin

unbundle bit_operations_syntax

section \<open>The hash primitives of the standard library\<close>

text \<open>
  \<^verbatim>\<open>merkle.go\<close> hashes with \<^verbatim>\<open>crypto/sha256\<close> and prints digests with
  \<^verbatim>\<open>encoding/hex\<close>. Both are modelled here as executable functions on byte
  strings (\<^typ>\<open>string\<close> is a list of 8-bit characters, which is what a Go
  \<^verbatim>\<open>string\<close> and a \<^verbatim>\<open>[]byte\<close> are). SHA-256 follows FIPS 180-4; its 32-bit
  words are natural numbers below \<open>2^32\<close> with the reduction written out.
\<close>

definition add32 :: "nat \<Rightarrow> nat \<Rightarrow> nat" where
  "add32 a b = (a + b) mod 4294967296"

definition rotr :: "nat \<Rightarrow> nat \<Rightarrow> nat" where
  "rotr n x = x div 2 ^ n + (x mod 2 ^ n) * 2 ^ (32 - n)"

definition ssig0 :: "nat \<Rightarrow> nat" where
  "ssig0 x = rotr 7 x XOR rotr 18 x XOR (x div 2 ^ 3)"

definition ssig1 :: "nat \<Rightarrow> nat" where
  "ssig1 x = rotr 17 x XOR rotr 19 x XOR (x div 2 ^ 10)"

definition bsig0 :: "nat \<Rightarrow> nat" where
  "bsig0 x = rotr 2 x XOR rotr 13 x XOR rotr 22 x"

definition bsig1 :: "nat \<Rightarrow> nat" where
  "bsig1 x = rotr 6 x XOR rotr 11 x XOR rotr 25 x"

definition K256 :: "nat list" where
  "K256 = [
    1116352408, 1899447441, 3049323471, 3921009573, 961987163, 1508970993, 2453635748, 2870763221,
    3624381080, 310598401, 607225278, 1426881987, 1925078388, 2162078206, 2614888103, 3248222580,
    3835390401, 4022224774, 264347078, 604807628, 770255983, 1249150122, 1555081692, 1996064986,
    2554220882, 2821834349, 2952996808, 3210313671, 3336571891, 3584528711, 113926993, 338241895,
    666307205, 773529912, 1294757372, 1396182291, 1695183700, 1986661051, 2177026350, 2456956037,
    2730485921, 2820302411, 3259730800, 3345764771, 3516065817, 3600352804, 4094571909, 275423344,
    430227734, 506948616, 659060556, 883997877, 958139571, 1322822218, 1537002063, 1747873779,
    1955562222, 2024104815, 2227730452, 2361852424, 2428436474, 2756734187, 3204031479, 3329325298]"

definition init256 :: "nat list" where
  "init256 = [1779033703, 3144134277, 1013904242, 2773480762,
              1359893119, 2600822924, 528734635, 1541459225]"

text \<open>
  The message schedule. \<open>extend k ws\<close> appends \<open>k\<close> further words to the words
  computed so far, which are kept newest first: \<open>ws ! 1\<close> is \<open>W(t-2)\<close>,
  \<open>ws ! 6\<close> is \<open>W(t-7)\<close>, \<open>ws ! 14\<close> is \<open>W(t-15)\<close> and \<open>ws ! 15\<close> is \<open>W(t-16)\<close>.
\<close>

definition next_w :: "nat list \<Rightarrow> nat" where
  "next_w ws = add32 (add32 (ssig1 (ws ! 1)) (ws ! 6)) (add32 (ssig0 (ws ! 14)) (ws ! 15))"

fun extend :: "nat \<Rightarrow> nat list \<Rightarrow> nat list" where
  "extend 0 ws = ws"
| "extend (Suc k) ws = extend k (next_w ws # ws)"

definition T1 :: "nat \<Rightarrow> nat \<Rightarrow> nat \<Rightarrow> nat \<Rightarrow> nat \<Rightarrow> nat \<Rightarrow> nat" where
  "T1 e f g h k w =
     add32 (add32 (add32 h (bsig1 e)) ((e AND f) XOR ((4294967295 - e) AND g))) (add32 k w)"

definition T2 :: "nat \<Rightarrow> nat \<Rightarrow> nat \<Rightarrow> nat" where
  "T2 a b c = add32 (bsig0 a) ((a AND b) XOR (a AND c) XOR (b AND c))"

fun round256 :: "nat list \<Rightarrow> nat \<times> nat \<Rightarrow> nat list" where
  "round256 [a, b, c, d, e, f, g, h] (k, w) =
     [add32 (T1 e f g h k w) (T2 a b c), a, b, c, add32 d (T1 e f g h k w), e, f, g]"
| "round256 s _ = s"

definition block256 :: "nat list \<Rightarrow> nat list \<Rightarrow> nat list" where
  "block256 h m = map2 add32 h (foldl round256 h (zip K256 (rev (extend 48 (rev m)))))"

fun be32 :: "string \<Rightarrow> nat list" where
  "be32 (a # b # c # d # rest) =
     (((of_char a * 256 + of_char b) * 256 + of_char c) * 256 + of_char d) # be32 rest"
| "be32 _ = []"

fun blocks :: "nat list \<Rightarrow> nat list \<Rightarrow> nat list" where
  "blocks h [] = h"
| "blocks h ws = blocks (block256 h (take 16 ws)) (drop 16 ws)"

definition be_bytes4 :: "nat \<Rightarrow> string" where
  "be_bytes4 n = map (\<lambda>i. char_of (n div 256 ^ i)) [3, 2, 1, 0]"

definition be_bytes8 :: "nat \<Rightarrow> string" where
  "be_bytes8 n = map (\<lambda>i. char_of (n div 256 ^ i)) [7, 6, 5, 4, 3, 2, 1, 0]"

definition pad256 :: "string \<Rightarrow> string" where
  "pad256 m = m @ [char_of (128::nat)]
                @ replicate ((119 - length m mod 64) mod 64) (char_of (0::nat))
                @ be_bytes8 (8 * length m)"

text \<open>\<^verbatim>\<open>sha256.Sum256\<close>: the 32 bytes of the digest.\<close>

definition Sum256 :: "string \<Rightarrow> string" where
  "Sum256 m = concat (map be_bytes4 (blocks init256 (be32 (pad256 m))))"

text \<open>\<^verbatim>\<open>hex.EncodeToString\<close>: two lowercase hexadecimal digits for every byte.\<close>

definition hexdigit :: "nat \<Rightarrow> char" where
  "hexdigit n = ''0123456789abcdef'' ! n"

definition EncodeToString :: "string \<Rightarrow> string" where
  "EncodeToString bs =
     concat (map (\<lambda>c. [hexdigit (of_char c div 16), hexdigit (of_char c mod 16)]) bs)"

text \<open>
  \<^verbatim>\<open>hex.DecodeString\<close> on well-formed input, the inverse of the encoding: it gives back
  the raw digest bytes that a stored node value displays.
\<close>

definition hexval :: "char \<Rightarrow> nat" where
  "hexval c = (if of_char c < (58::nat) then of_char c - 48 else of_char c - 87)"

fun DecodeString :: "string \<Rightarrow> string" where
  "DecodeString (hi # lo # rest) = char_of (hexval hi * 16 + hexval lo) # DecodeString rest"
| "DecodeString _ = []"

section \<open>Go integers, errors and slices\<close>

text \<open>
  Go's \<^verbatim>\<open>int\<close> is taken as the 64-bit two's-complement integer it is on every 64-bit
  platform: a HOL integer with the wrap-around written out by \<open>int64\<close>. The operators
  \<^verbatim>\<open>|\<close> and \<^verbatim>\<open>>>\<close> on a signed integer are \<open>OR\<close> and \<open>drop_bit\<close> (an arithmetic
  shift). Division and remainder truncate towards zero and panic on a zero divisor.
\<close>

datatype error = Error string | Panic

definition int64 :: "int \<Rightarrow> int" where
  "int64 x = (x + 2 ^ 63) mod 2 ^ 64 - 2 ^ 63"

definition go_quot :: "int \<Rightarrow> int \<Rightarrow> error + int" where
  "go_quot a b = (if b = 0 then Inl Panic else Inr (sgn a * sgn b * (\<bar>a\<bar> div \<bar>b\<bar>)))"

definition go_rem :: "int \<Rightarrow> int \<Rightarrow> error + int" where
  "go_rem a b =
     (if b = 0 then Inl Panic else Inr (a - b * (sgn a * sgn b * (\<bar>a\<bar> div \<bar>b\<bar>))))"

text \<open>An index expression \<^verbatim>\<open>xs[i]\<close> panics unless \<open>0 \<le> i < len(xs)\<close>.\<close>

definition in_range :: "'a list \<Rightarrow> int \<Rightarrow> bool" where
  "in_range xs i \<longleftrightarrow> 0 \<le> i \<and> i < int (length xs)"

section \<open>The Merkle tree of \<^verbatim>\<open>merkle.go\<close>\<close>

text \<open>
  The type parameter \<^verbatim>\<open>T\<close> ranges over \<^verbatim>\<open>[]byte\<close> and \<^verbatim>\<open>string\<close>; \<^verbatim>\<open>hashData\<close>
  turns either into the same bytes, so an item is a byte string here.
\<close>

record Tree =
  Nodes :: "string list"
  LeafData :: "string list"
  LeafOffset :: int
  LeafCount :: int

definition hashData :: "string \<Rightarrow> string" where
  "hashData data = EncodeToString (Sum256 data)"

definition hashNodes :: "string \<Rightarrow> string \<Rightarrow> string" where
  "hashNodes left right = EncodeToString (Sum256 (left @ right))"

text \<open>The five statements \<^verbatim>\<open>n |= n >> s\<close> of \<^verbatim>\<open>nextPowerOfTwo\<close>, for \<open>s = 1, 2, 4, 8, 16\<close>.\<close>

definition orShifts :: "int \<Rightarrow> int" where
  "orShifts n =
     (let n2 = n OR drop_bit 1 n;
          n3 = n2 OR drop_bit 2 n2;
          n4 = n3 OR drop_bit 4 n3;
          n5 = n4 OR drop_bit 8 n4
      in n5 OR drop_bit 16 n5)"

definition nextPowerOfTwo :: "int \<Rightarrow> int" where
  "nextPowerOfTwo n = (if n \<le> 0 then 1 else int64 (orShifts (int64 (n - 1)) + 1))"

text \<open>The first loop of \<^verbatim>\<open>NewTree\<close>: hash all leaves, padding included.\<close>

function leafLoop ::
  "string list \<Rightarrow> int \<Rightarrow> int \<Rightarrow> int \<Rightarrow> int \<Rightarrow> string list \<Rightarrow> error + string list" where
  "leafLoop data leafCount paddedLeafCount leafOffset i nodes =
     (if i < paddedLeafCount then
        (if i < leafCount then
           (if in_range data i \<and> in_range nodes (leafOffset + i)
            then leafLoop data leafCount paddedLeafCount leafOffset (i + 1)
                   (nodes[nat (leafOffset + i) := hashData (data ! nat i)])
            else Inl Panic)
         else
           (if in_range nodes (leafOffset + leafCount - 1) \<and> in_range nodes (leafOffset + i)
            then leafLoop data leafCount paddedLeafCount leafOffset (i + 1)
                   (nodes[nat (leafOffset + i) := nodes ! nat (leafOffset + leafCount - 1)])
            else Inl Panic))
      else Inr nodes)"
  by pat_completeness auto
termination
  by (relation "measure (\<lambda>(data, leafCount, paddedLeafCount, leafOffset, i, nodes).
                           nat (paddedLeafCount - i))") auto

text \<open>The second loop of \<^verbatim>\<open>NewTree\<close>: build the tree bottom-up.\<close>

function buildLoop :: "int \<Rightarrow> string list \<Rightarrow> error + string list" where
  "buildLoop i nodes =
     (if i \<ge> 0 then
        (if in_range nodes (2 * i + 1) \<and> in_range nodes (2 * i + 2) \<and> in_range nodes i
         then buildLoop (i - 1)
                (nodes[nat i := hashNodes (nodes ! nat (2 * i + 1)) (nodes ! nat (2 * i + 2))])
         else Inl Panic)
      else Inr nodes)"
  by pat_completeness auto
termination
  by (relation "measure (\<lambda>(i, nodes). nat (i + 1))") auto

text \<open>
  \<^verbatim>\<open>make([]string, totalNodes)\<close> panics on a negative length; otherwise it gives
  \<open>totalNodes\<close> empty strings.
\<close>

definition NewTree :: "string list \<Rightarrow> error + Tree" where
  "NewTree data =
     (if length data = 0 then Inl (Error ''cannot create tree with empty data'')
      else let leafCount = int (length data);
               paddedLeafCount = nextPowerOfTwo leafCount;
               totalNodes = int64 (int64 (paddedLeafCount * 2) - 1);
               leafOffset = int64 (paddedLeafCount - 1)
           in if totalNodes < 0 then Inl Panic
              else case leafLoop data leafCount paddedLeafCount leafOffset 0
                          (replicate (nat totalNodes) []) of
                     Inl e \<Rightarrow> Inl e
                   | Inr nodes \<Rightarrow>
                       (case buildLoop (int64 (leafOffset - 1)) nodes of
                          Inl e \<Rightarrow> Inl e
                        | Inr nodes' \<Rightarrow>
                            Inr \<lparr>Nodes = nodes', LeafData = data,
                                 LeafOffset = leafOffset, LeafCount = leafCount\<rparr>))"

definition GetRoot :: "Tree \<Rightarrow> string" where
  "GetRoot t = (if length (Nodes t) = 0 then [] else Nodes t ! 0)"

text \<open>
  The loop of \<^verbatim>\<open>GetProof\<close>. Its state is the proof gathered so far and
  \<^verbatim>\<open>currentIndex\<close>; the model returns both as they are when the loop is left.
  Inside the loop \<^verbatim>\<open>currentIndex\<close> is positive, so only \<^verbatim>\<open>currentIndex + 1\<close> can
  wrap around.
\<close>

function proofLoop :: "string list \<Rightarrow> int \<Rightarrow> string list \<Rightarrow> error + string list \<times> int" where
  "proofLoop nodes currentIndex proof =
     (if currentIndex > 0 then
        (case go_rem currentIndex 2 of
           Inl e \<Rightarrow> Inl e
         | Inr r \<Rightarrow>
             (let siblingIndex = (if r = 1 then int64 (currentIndex + 1) else currentIndex - 1)
              in if in_range nodes siblingIndex
                 then (case go_quot (currentIndex - 1) 2 of
                         Inl e \<Rightarrow> Inl e
                       | Inr parent \<Rightarrow>
                           proofLoop nodes parent (proof @ [nodes ! nat siblingIndex]))
                 else Inl Panic))
      else Inr (proof, currentIndex))"
  by pat_completeness auto
termination
  by (relation "measure (\<lambda>(nodes, currentIndex, proof). nat currentIndex)")
     (auto simp: go_quot_def sgn_if split: if_splits)

definition GetProof :: "Tree \<Rightarrow> int \<Rightarrow> error + string list" where
  "GetProof t index =
     (if index < 0 \<or> index \<ge> LeafCount t then Inl (Error ''index out of range'')
      else case proofLoop (Nodes t) (int64 (LeafOffset t + index)) [] of
             Inl e \<Rightarrow> Inl e
           | Inr (proof, currentIndex) \<Rightarrow> Inr proof)"



section \<open>Arithmetic of the model\<close>

lemma int64_id: "- (2 ^ 63) \<le> x \<Longrightarrow> x < 2 ^ 63 \<Longrightarrow> int64 x = x"
  by (simp add: int64_def)



subsection \<open>The bit smearing of \<^verbatim>\<open>nextPowerOfTwo\<close>\<close>

lemma or_shift_bounds:
  fixes x :: int
  assumes "0 \<le> x" "x < 2 ^ N"
  shows "0 \<le> (x OR drop_bit s x) \<and> x \<le> (x OR drop_bit s x) \<and> (x OR drop_bit s x) < 2 ^ N"
proof -
  have d0: "0 \<le> drop_bit s x" using assms by simp
  have "drop_bit s x \<le> x"
    using zdiv_mono2 [of x 1 "2 ^ s"] assms(1) by (simp add: drop_bit_eq_div)
  then have d1: "drop_bit s x < 2 ^ N" using assms(2) by linarith
  show ?thesis
    using assms d0 d1 by (simp add: or_greater_eq OR_upper)
qed

lemma or_shift_run:
  fixes x m :: int
  assumes "\<And>j. bit x j \<longleftrightarrow> (\<exists>d<w. bit m (j + d))"
  shows "bit (x OR drop_bit w x) j \<longleftrightarrow> (\<exists>d<2 * w. bit m (j + d))"
proof
  assume "bit (x OR drop_bit w x) j"
  then consider "bit x j" | "bit x (w + j)"
    by (auto simp: bit_or_iff bit_drop_bit_eq)
  then show "\<exists>d<2 * w. bit m (j + d)"
  proof cases
    case 1
    then obtain d where "d < w" "bit m (j + d)" using assms by blast
    then show ?thesis by (intro exI [of _ d]) simp
  next
    case 2
    then obtain d where "d < w" "bit m (w + j + d)" using assms by blast
    then show ?thesis by (intro exI [of _ "w + d"]) (simp add: ac_simps)
  qed
next
  assume "\<exists>d<2 * w. bit m (j + d)"
  then obtain d where d: "d < 2 * w" "bit m (j + d)" by blast
  show "bit (x OR drop_bit w x) j"
  proof (cases "d < w")
    case True
    with d assms have "bit x j" by blast
    then show ?thesis by (simp add: bit_or_iff)
  next
    case False
    with d have "d - w < w" "bit m (w + j + (d - w))" by (simp_all add: ac_simps)
    with assms have "bit x (w + j)" by blast
    then show ?thesis by (simp add: bit_or_iff bit_drop_bit_eq)
  qed
qed

lemma cascade_bits:
  fixes m :: int
  defines "n2 \<equiv> m OR drop_bit 1 m"
  defines "n3 \<equiv> n2 OR drop_bit 2 n2"
  defines "n4 \<equiv> n3 OR drop_bit 4 n3"
  defines "n5 \<equiv> n4 OR drop_bit 8 n4"
  defines "n6 \<equiv> n5 OR drop_bit 16 n5"
  shows "bit n6 j \<longleftrightarrow> (\<exists>d<32. bit m (j + d))"
proof -
  have b1: "bit m j \<longleftrightarrow> (\<exists>d<1. bit m (j + d))" for j by simp
  have b2: "bit n2 j \<longleftrightarrow> (\<exists>d<2. bit m (j + d))" for j
    unfolding n2_def using or_shift_run [of m 1 m j, OF b1] by simp
  have b3: "bit n3 j \<longleftrightarrow> (\<exists>d<4. bit m (j + d))" for j
    unfolding n3_def using or_shift_run [of n2 2 m j, OF b2] by simp
  have b4: "bit n4 j \<longleftrightarrow> (\<exists>d<8. bit m (j + d))" for j
    unfolding n4_def using or_shift_run [of n3 4 m j, OF b3] by simp
  have b5: "bit n5 j \<longleftrightarrow> (\<exists>d<16. bit m (j + d))" for j
    unfolding n5_def using or_shift_run [of n4 8 m j, OF b4] by simp
  show ?thesis
    unfolding n6_def using or_shift_run [of n5 16 m j, OF b5] by simp
qed

lemma top_bit_run:
  fixes m :: int
  assumes "0 \<le> m" "m < 2 ^ k" "k \<le> 32" "\<And>k'. m < 2 ^ k' \<Longrightarrow> k \<le> k'"
  shows "(\<exists>d<32. bit m (j + d)) \<longleftrightarrow> j < k"
proof
  assume "\<exists>d<32. bit m (j + d)"
  then obtain d where "bit m (j + d)" by blast
  then have "\<not> m < 2 ^ (j + d)"
    using assms(1) by (auto simp: bit_iff_odd)
  then have "j + d < k"
  proof (rule contrapos_np)
    assume "\<not> j + d < k"
    then have "(2::int) ^ k \<le> 2 ^ (j + d)"
      by (simp add: power_increasing)
    with assms(2) show "m < 2 ^ (j + d)" by linarith
  qed
  then show "j < k" by simp
next
  assume jk: "j < k"
  then have "\<not> m < 2 ^ (k - 1)" using assms(4) [of "k - 1"] by auto
  then have lo: "2 ^ (k - 1) \<le> m" by simp
  have "(2::int) ^ k = 2 * 2 ^ (k - 1)"
    using jk by (cases k) simp_all
  then have hi: "m < 2 * 2 ^ (k - 1)" using assms(2) by simp
  have "m div 2 ^ (k - 1) = 1"
  proof (rule int_div_pos_eq [of m "2 ^ (k - 1)" 1 "m - 2 ^ (k - 1)"])
    show "m = 2 ^ (k - 1) * 1 + (m - 2 ^ (k - 1))" by simp
    show "0 \<le> m - 2 ^ (k - 1)" using lo by simp
    show "m - 2 ^ (k - 1) < 2 ^ (k - 1)" using hi by simp
  qed
  then have "bit m (j + (k - 1 - j))" using jk by (simp add: bit_iff_odd)
  moreover have "k - 1 - j < 32" using assms(3) jk by simp
  ultimately show "\<exists>d<32. bit m (j + d)" by blast
qed


lemma cascade_bounds:
  fixes m :: int
  defines "n2 \<equiv> m OR drop_bit 1 m"
  defines "n3 \<equiv> n2 OR drop_bit 2 n2"
  defines "n4 \<equiv> n3 OR drop_bit 4 n3"
  defines "n5 \<equiv> n4 OR drop_bit 8 n4"
  defines "n6 \<equiv> n5 OR drop_bit 16 n5"
  assumes "0 \<le> m" "m < 2 ^ N"
  shows "m \<le> n6 \<and> n6 < 2 ^ N"
proof -
  have b2: "0 \<le> n2 \<and> m \<le> n2 \<and> n2 < 2 ^ N"
    unfolding n2_def using or_shift_bounds [of m N 1] assms by simp
  have b3: "0 \<le> n3 \<and> n2 \<le> n3 \<and> n3 < 2 ^ N"
    unfolding n3_def using or_shift_bounds [of n2 N 2] b2 by simp
  have b4: "0 \<le> n4 \<and> n3 \<le> n4 \<and> n4 < 2 ^ N"
    unfolding n4_def using or_shift_bounds [of n3 N 4] b3 by simp
  have b5: "0 \<le> n5 \<and> n4 \<le> n5 \<and> n5 < 2 ^ N"
    unfolding n5_def using or_shift_bounds [of n4 N 8] b4 by simp
  have b6: "0 \<le> n6 \<and> n5 \<le> n6 \<and> n6 < 2 ^ N"
    unfolding n6_def using or_shift_bounds [of n5 N 16] b5 by simp
  show ?thesis using b2 b3 b4 b5 b6 by linarith
qed

lemma orShifts_bits: "bit (orShifts m) j \<longleftrightarrow> (\<exists>d<32. bit m (j + d))"
  unfolding orShifts_def Let_def by (rule cascade_bits)

lemma orShifts_bounds: "0 \<le> m \<Longrightarrow> m < 2 ^ N \<Longrightarrow> m \<le> orShifts m \<and> orShifts m < 2 ^ N"
  unfolding orShifts_def Let_def by (rule cascade_bounds)

lemma nextPowerOfTwo_bounds:
  assumes "1 \<le> n" "n \<le> 2 ^ 60"
  shows "n \<le> nextPowerOfTwo n \<and> nextPowerOfTwo n \<le> 2 ^ 60"
proof -
  have m: "0 \<le> n - 1" "n - 1 < 2 ^ 60" using assms by simp_all
  then have i: "int64 (n - 1) = n - 1" by (simp add: int64_id)
  from orShifts_bounds [OF m] show ?thesis
    using assms(1) by (simp add: nextPowerOfTwo_def i int64_id)
qed

lemma nextPowerOfTwo_exact:
  assumes "1 \<le> n" "n \<le> 2 ^ 32"
  shows "\<exists>k\<le>32. nextPowerOfTwo n = 2 ^ k \<and> n \<le> 2 ^ k \<and> (\<forall>j. n \<le> 2 ^ j \<longrightarrow> k \<le> j)"
proof -
  define m where "m = n - 1"
  have m: "0 \<le> m" "m < 2 ^ 32" using assms by (simp_all add: m_def)
  then have i: "int64 (n - 1) = m" by (simp add: int64_id m_def)
  define k where "k = (LEAST k. m < 2 ^ k)"
  have k1: "m < 2 ^ k" unfolding k_def using m(2) by (rule LeastI)
  have k2: "k \<le> k'" if "m < 2 ^ k'" for k' unfolding k_def using that by (rule Least_le)
  have k3: "k \<le> 32" using k2 m(2) by simp
  have n6: "nextPowerOfTwo n = orShifts m + 1"
    using orShifts_bounds [OF m] assms(1) m(1)
    by (simp add: nextPowerOfTwo_def i int64_id)
  have "bit (orShifts m) j \<longleftrightarrow> bit (mask k :: int) j" for j
    using top_bit_run [OF m(1) k1 k3 k2, of j]
    by (simp add: orShifts_bits bit_mask_iff)
  then have "orShifts m = mask k" by (rule bit_eqI)
  then have e: "nextPowerOfTwo n = 2 ^ k" by (simp add: n6 mask_eq_exp_minus_1)
  have "n \<le> 2 ^ k" using k1 by (simp add: m_def)
  moreover have "k \<le> j" if "n \<le> 2 ^ j" for j
    using that k2 [of j] by (simp add: m_def)
  ultimately show ?thesis using e k3 by blast
qed

lemma nextPowerOfTwo_beyond: "nextPowerOfTwo 4294967297 = 8589934591"
  by (simp add: nextPowerOfTwo_def orShifts_def int64_def)

section \<open>Construction\<close>

text \<open>
  The lemmas below follow the two loops of \<^verbatim>\<open>NewTree\<close>. A slice of \<open>2^60\<close> or more
  items cannot exist in a 64-bit address space (a string header alone takes 16 bytes),
  so the length of the input is taken below \<open>2^60\<close>; no operation of \<^verbatim>\<open>NewTree\<close>
  wraps around on such an input.
\<close>

lemma leafLoop_correct:
  assumes "n = int (length data)" "1 \<le> n" "n \<le> P" "int (length nodes) = 2 * P - 1"
    and "0 \<le> i" "i \<le> P"
    and "\<forall>j. 0 \<le> j \<and> j < i \<longrightarrow> nodes ! nat (P - 1 + j) = hashData (data ! nat (min j (n - 1)))"
  shows "\<exists>nodes'. leafLoop data n P (P - 1) i nodes = Inr nodes' \<and> length nodes' = length nodes \<and>
           (\<forall>j. 0 \<le> j \<and> j < P \<longrightarrow>
                nodes' ! nat (P - 1 + j) = hashData (data ! nat (min j (n - 1))))"
  using assms(4-)
proof (induction "nat (P - i)" arbitrary: i nodes)
  case 0
  then have "i = P" by simp
  with 0 show ?case by (subst leafLoop.simps) simp
next
  case (Suc k)
  then have lt: "i < P" by linarith
  let ?pos = "nat (P - 1 + i)"
  have pos: "?pos < length nodes" using Suc.prems lt by linarith
  have keep: "nat (P - 1 + j) \<noteq> ?pos" if "0 \<le> j" "j < i" for j
    using that Suc.prems by linarith
  show ?case
  proof (cases "i < n")
    case True
    let ?nodes = "nodes[?pos := hashData (data ! nat i)]"
    have r: "in_range data i" "in_range nodes (P - 1 + i)"
      using True Suc.prems lt assms(1) by (simp_all add: in_range_def)
    have inv: "\<forall>j. 0 \<le> j \<and> j < i + 1 \<longrightarrow>
                 ?nodes ! nat (P - 1 + j) = hashData (data ! nat (min j (n - 1)))"
    proof (intro allI impI)
      fix j assume j: "0 \<le> j \<and> j < i + 1"
      show "?nodes ! nat (P - 1 + j) = hashData (data ! nat (min j (n - 1)))"
      proof (cases "j = i")
        case True
        with \<open>i < n\<close> pos show ?thesis by (simp add: min_def)
      next
        case False
        with j have "j < i" by simp
        with j keep [of j] Suc.prems(4) show ?thesis by simp
      qed
    qed
    have "\<exists>nodes'. leafLoop data n P (P - 1) (i + 1) ?nodes = Inr nodes' \<and>
            length nodes' = length ?nodes \<and>
            (\<forall>j. 0 \<le> j \<and> j < P \<longrightarrow>
                nodes' ! nat (P - 1 + j) = hashData (data ! nat (min j (n - 1))))"
      using Suc.hyps(2) Suc.prems lt inv by (intro Suc.hyps(1)) simp_all
    then show ?thesis
      using True lt r by (subst leafLoop.simps) simp
  next
    case False
    let ?nodes = "nodes[?pos := nodes ! nat (P - 1 + n - 1)]"
    have r: "in_range nodes (P - 1 + n - 1)" "in_range nodes (P - 1 + i)"
      using False Suc.prems lt assms(2,3) by (simp_all add: in_range_def)
    have last: "nodes ! nat (P - 1 + n - 1) = hashData (data ! nat (n - 1))"
      using Suc.prems(4) False assms(2)
      by (metis add_diff_eq diff_ge_0_iff_ge min.idem not_less zle_diff1_eq)
    have inv: "\<forall>j. 0 \<le> j \<and> j < i + 1 \<longrightarrow>
                 ?nodes ! nat (P - 1 + j) = hashData (data ! nat (min j (n - 1)))"
    proof (intro allI impI)
      fix j assume j: "0 \<le> j \<and> j < i + 1"
      show "?nodes ! nat (P - 1 + j) = hashData (data ! nat (min j (n - 1)))"
      proof (cases "j = i")
        case True
        with False pos last show ?thesis by (simp add: min_def)
      next
        case False
        with j have "j < i" by simp
        with j keep [of j] Suc.prems(4) show ?thesis by simp
      qed
    qed
    have "\<exists>nodes'. leafLoop data n P (P - 1) (i + 1) ?nodes = Inr nodes' \<and>
            length nodes' = length ?nodes \<and>
            (\<forall>j. 0 \<le> j \<and> j < P \<longrightarrow>
                nodes' ! nat (P - 1 + j) = hashData (data ! nat (min j (n - 1))))"
      using Suc.hyps(2) Suc.prems lt inv by (intro Suc.hyps(1)) simp_all
    then show ?thesis
      using False lt r by (subst leafLoop.simps) simp
  qed
qed


lemma buildLoop_correct:
  assumes "int (length nodes) = 2 * L + 1" "- 1 \<le> i" "i < L"
    and "\<forall>j. i < j \<and> j < L \<longrightarrow>
             nodes ! nat j = hashNodes (nodes ! nat (2 * j + 1)) (nodes ! nat (2 * j + 2))"
  shows "\<exists>nodes'. buildLoop i nodes = Inr nodes' \<and> length nodes' = length nodes \<and>
           (\<forall>j. L \<le> j \<longrightarrow> nodes' ! nat j = nodes ! nat j) \<and>
           (\<forall>j. 0 \<le> j \<and> j < L \<longrightarrow>
                nodes' ! nat j = hashNodes (nodes' ! nat (2 * j + 1)) (nodes' ! nat (2 * j + 2)))"
  using assms
proof (induction "nat (i + 1)" arbitrary: i nodes)
  case 0
  then have "i = - 1" by simp
  with 0 show ?case by (subst buildLoop.simps) simp
next
  case (Suc k)
  then have ge: "0 \<le> i" by linarith
  let ?v = "hashNodes (nodes ! nat (2 * i + 1)) (nodes ! nat (2 * i + 2))"
  let ?nodes = "nodes[nat i := ?v]"
  have r: "in_range nodes (2 * i + 1)" "in_range nodes (2 * i + 2)" "in_range nodes i"
    using ge Suc.prems by (simp_all add: in_range_def)
  have same: "?nodes ! nat j = nodes ! nat j" if "i < j" for j
    using that ge by simp
  have inv: "\<forall>j. i - 1 < j \<and> j < L \<longrightarrow>
               ?nodes ! nat j = hashNodes (?nodes ! nat (2 * j + 1)) (?nodes ! nat (2 * j + 2))"
  proof (intro allI impI)
    fix j assume j: "i - 1 < j \<and> j < L"
    then have c: "i < 2 * j + 1" "i < 2 * j + 2" using ge by simp_all
    show "?nodes ! nat j = hashNodes (?nodes ! nat (2 * j + 1)) (?nodes ! nat (2 * j + 2))"
    proof (cases "j = i")
      case True
      have "?nodes ! nat i = ?v" using r(3) ge by (simp add: in_range_def)
      with True same [OF c(1)] same [OF c(2)] show ?thesis by simp
    next
      case False
      with j have "i < j" by simp
      with j Suc.prems(4) same [OF c(1)] same [OF c(2)] same [of j] show ?thesis by simp
    qed
  qed
  have "\<exists>nodes'. buildLoop (i - 1) ?nodes = Inr nodes' \<and> length nodes' = length ?nodes \<and>
           (\<forall>j. L \<le> j \<longrightarrow> nodes' ! nat j = ?nodes ! nat j) \<and>
           (\<forall>j. 0 \<le> j \<and> j < L \<longrightarrow>
                nodes' ! nat j = hashNodes (nodes' ! nat (2 * j + 1)) (nodes' ! nat (2 * j + 2)))"
    using Suc.hyps(2) Suc.prems ge inv by (intro Suc.hyps(1)) simp_all
  then obtain nodes' where n: "buildLoop (i - 1) ?nodes = Inr nodes'"
      "length nodes' = length ?nodes"
      "\<forall>j. L \<le> j \<longrightarrow> nodes' ! nat j = ?nodes ! nat j"
      "\<forall>j. 0 \<le> j \<and> j < L \<longrightarrow>
                nodes' ! nat j = hashNodes (nodes' ! nat (2 * j + 1)) (nodes' ! nat (2 * j + 2))"
    by blast
  have "buildLoop i nodes = Inr nodes'"
    using ge r n(1) by (subst buildLoop.simps) simp
  moreover have "\<forall>j. L \<le> j \<longrightarrow> nodes' ! nat j = nodes ! nat j"
    using n(3) same Suc.prems(3) by simp
  ultimately show ?case using n(2,4) by simp
qed

lemma NewTree_shape:
  assumes "data \<noteq> []" "length data < 2 ^ 60"
  shows "\<exists>nodes. NewTree data =
            Inr \<lparr>Nodes = nodes, LeafData = data,
                 LeafOffset = nextPowerOfTwo (int (length data)) - 1,
                 LeafCount = int (length data)\<rparr> \<and>
           int (length nodes) = 2 * nextPowerOfTwo (int (length data)) - 1 \<and>
           (\<forall>j. 0 \<le> j \<and> j < nextPowerOfTwo (int (length data)) \<longrightarrow>
                nodes ! nat (nextPowerOfTwo (int (length data)) - 1 + j) =
                hashData (data ! nat (min j (int (length data) - 1)))) \<and>
           (\<forall>j. 0 \<le> j \<and> j < nextPowerOfTwo (int (length data)) - 1 \<longrightarrow>
                nodes ! nat j = hashNodes (nodes ! nat (2 * j + 1)) (nodes ! nat (2 * j + 2)))"
proof -
  define n where "n = int (length data)"
  define P where "P = nextPowerOfTwo n"
  have n: "1 \<le> n" "n \<le> 2 ^ 60"
    using assms by (simp_all add: n_def Suc_le_eq)
  have P: "n \<le> P" "P \<le> 2 ^ 60"
    using nextPowerOfTwo_bounds [OF n] by (simp_all add: P_def)
  have w: "int64 (int64 (P * 2) - 1) = 2 * P - 1" "int64 (P - 1) = P - 1"
    "int64 (P - 1 - 1) = P - 1 - 1"
    using n(1) P by (simp_all add: int64_id)
  let ?init = "replicate (nat (2 * P - 1)) ([] :: string)"
  have "\<exists>nodes'. leafLoop data n P (P - 1) 0 ?init = Inr nodes' \<and>
          length nodes' = length ?init \<and>
          (\<forall>j. 0 \<le> j \<and> j < P \<longrightarrow>
               nodes' ! nat (P - 1 + j) = hashData (data ! nat (min j (n - 1))))"
  proof (intro leafLoop_correct)
    show "n = int (length data)" by (rule n_def)
    show "int (length ?init) = 2 * P - 1" using n(1) P(1) by simp
    show "\<forall>j. 0 \<le> j \<and> j < 0 \<longrightarrow>
            ?init ! nat (P - 1 + j) = hashData (data ! nat (min j (n - 1)))"
      by auto
  qed (use n(1) P(1) in simp_all)
  then obtain leaves where l: "leafLoop data n P (P - 1) 0 ?init = Inr leaves"
      "length leaves = length ?init"
      "\<forall>j. 0 \<le> j \<and> j < P \<longrightarrow>
               leaves ! nat (P - 1 + j) = hashData (data ! nat (min j (n - 1)))"
    by blast
  have len: "int (length leaves) = 2 * (P - 1) + 1"
    using l(2) n(1) P(1) by simp
  have "\<exists>nodes'. buildLoop (P - 1 - 1) leaves = Inr nodes' \<and> length nodes' = length leaves \<and>
           (\<forall>j. P - 1 \<le> j \<longrightarrow> nodes' ! nat j = leaves ! nat j) \<and>
           (\<forall>j. 0 \<le> j \<and> j < P - 1 \<longrightarrow>
                nodes' ! nat j = hashNodes (nodes' ! nat (2 * j + 1)) (nodes' ! nat (2 * j + 2)))"
  proof (intro buildLoop_correct)
    show "int (length leaves) = 2 * (P - 1) + 1" by (rule len)
    show "- 1 \<le> P - 1 - 1" using n(1) P(1) by simp
    show "P - 1 - 1 < P - 1" by simp
    show "\<forall>j. P - 1 - 1 < j \<and> j < P - 1 \<longrightarrow>
             leaves ! nat j = hashNodes (leaves ! nat (2 * j + 1)) (leaves ! nat (2 * j + 2))"
      by auto
  qed
  then obtain nodes where b: "buildLoop (P - 1 - 1) leaves = Inr nodes"
      "length nodes = length leaves"
      "\<forall>j. P - 1 \<le> j \<longrightarrow> nodes ! nat j = leaves ! nat j"
      "\<forall>j. 0 \<le> j \<and> j < P - 1 \<longrightarrow>
                nodes ! nat j = hashNodes (nodes ! nat (2 * j + 1)) (nodes ! nat (2 * j + 2))"
    by blast
  have "NewTree data =
          Inr \<lparr>Nodes = nodes, LeafData = data, LeafOffset = P - 1, LeafCount = n\<rparr>"
  proof -
    have "length data \<noteq> 0" "\<not> 2 * P - 1 < 0"
      using assms(1) n(1) P(1) by simp_all
    then show ?thesis
      by (simp only: NewTree_def Let_def n_def [symmetric] P_def [symmetric] w l(1) b(1)
            sum.case if_False)
  qed
  moreover have "int (length nodes) = 2 * P - 1" using b(2) len by simp
  moreover have "\<forall>j. 0 \<le> j \<and> j < P \<longrightarrow>
        nodes ! nat (P - 1 + j) = hashData (data ! nat (min j (n - 1)))"
    using b(3) l(3) by simp
  ultimately show ?thesis
    using b(4) unfolding P_def n_def by blast
qed

text \<open>
  C6. \<^verbatim>\<open>NewTree\<close> fails exactly on the empty input, with the error
  \<^verbatim>\<open>cannot create tree with empty data\<close> and no tree; every non-empty input, a single
  item included, gives a tree.
\<close>

theorem NewTree_fails_iff_empty:
  assumes "length data < 2 ^ 60"
  shows "(data = [] \<longrightarrow> NewTree data = Inl (Error ''cannot create tree with empty data'')) \<and>
         (data \<noteq> [] \<longrightarrow> (\<exists>t. NewTree data = Inr t \<and> LeafData t = data))"
proof (cases "data = []")
  case True
  then show ?thesis by (simp add: NewTree_def)
next
  case False
  from NewTree_shape [OF False assms] show ?thesis
    using False by auto
qed

theorem NewTree_fails_iff_empty_witness:
  "NewTree [] = Inl (Error ''cannot create tree with empty data'') \<and>
   (\<exists>t. NewTree [''x''] = Inr t \<and> LeafData t = [''x''])"
  using NewTree_fails_iff_empty [of "[]"] NewTree_fails_iff_empty [of "[''x'']"]
  by simp

text \<open>
  C3. In a built tree the padding slots, at \<open>LeafOffset + j\<close> for
  \<open>LeafCount \<le> j < paddedLeafCount\<close>, hold the very value of the last real leaf at
  \<open>LeafOffset + LeafCount - 1\<close>, which is the hash of the last item.
  (\<^verbatim>\<open>paddedLeafCount\<close> is not a field of the tree: it is \<open>LeafOffset + 1\<close>.)
\<close>

theorem padding_duplicates_last_leaf:
  assumes "NewTree data = Inr t" "length data < 2 ^ 60"
  shows "LeafCount t = int (length data) \<and>
         LeafOffset t + 1 = nextPowerOfTwo (int (length data)) \<and>
         (\<forall>j. LeafCount t \<le> j \<and> j < LeafOffset t + 1 \<longrightarrow>
              Nodes t ! nat (LeafOffset t + j) = Nodes t ! nat (LeafOffset t + LeafCount t - 1)) \<and>
         Nodes t ! nat (LeafOffset t + LeafCount t - 1) = hashData (last data)"
proof -
  have ne: "data \<noteq> []" using assms(1) by (auto simp: NewTree_def)
  define n where "n = int (length data)"
  define P where "P = nextPowerOfTwo n"
  from NewTree_shape [OF ne assms(2)]
  obtain nodes where
    s: "NewTree data = Inr \<lparr>Nodes = nodes, LeafData = data, LeafOffset = P - 1, LeafCount = n\<rparr>"
    and leaves: "\<forall>j. 0 \<le> j \<and> j < P \<longrightarrow>
                   nodes ! nat (P - 1 + j) = hashData (data ! nat (min j (n - 1)))"
    unfolding n_def P_def by blast
  from s assms(1)
  have t: "t = \<lparr>Nodes = nodes, LeafData = data, LeafOffset = P - 1, LeafCount = n\<rparr>" by simp
  have n: "1 \<le> n" "n \<le> 2 ^ 60" using ne assms(2) by (simp_all add: n_def Suc_le_eq)
  have P: "n \<le> P" using nextPowerOfTwo_bounds [OF n] by (simp add: P_def)
  have l: "data ! nat (n - 1) = last data"
    using ne by (simp add: n_def last_conv_nth nat_diff_distrib')
  have a: "nodes ! nat (P - 1 + (n - 1)) = hashData (data ! nat (n - 1))"
    using leaves [rule_format, of "n - 1"] n(1) P by simp
  have b: "nodes ! nat (P - 1 + j) = hashData (data ! nat (n - 1))" if "n \<le> j" "j < P" for j
    using leaves [rule_format, of j] that n(1) by (simp add: min_def)
  have "LeafCount t = int (length data)" by (simp add: t n_def)
  moreover have "LeafOffset t + 1 = nextPowerOfTwo (int (length data))"
    by (simp add: t P_def n_def)
  moreover have "\<forall>j. LeafCount t \<le> j \<and> j < LeafOffset t + 1 \<longrightarrow>
      Nodes t ! nat (LeafOffset t + j) = Nodes t ! nat (LeafOffset t + LeafCount t - 1)"
  proof (intro allI impI)
    fix j assume "LeafCount t \<le> j \<and> j < LeafOffset t + 1"
    then have "n \<le> j" "j < P" by (simp_all add: t)
    from b [OF this] a have "nodes ! nat (P - 1 + j) = nodes ! nat (P - 1 + (n - 1))" by simp
    then show "Nodes t ! nat (LeafOffset t + j) = Nodes t ! nat (LeafOffset t + LeafCount t - 1)"
      by (simp add: t add_diff_eq)
  qed
  moreover have "Nodes t ! nat (LeafOffset t + LeafCount t - 1) = hashData (last data)"
    using a l by (simp add: t add_diff_eq)
  ultimately show ?thesis by blast
qed

theorem padding_duplicates_last_leaf_witness:
  "\<exists>t. NewTree [''a'', ''b'', ''c''] = Inr t \<and> LeafCount t = 3 \<and> LeafOffset t = 3 \<and>
        Nodes t ! 6 = Nodes t ! 5 \<and> Nodes t ! 5 = hashData ''c''"
proof -
  have len: "length [''a'', ''b'', ''c''] < 2 ^ 60" by simp
  from NewTree_shape [OF _ len]
  obtain t where t: "NewTree [''a'', ''b'', ''c''] = Inr t" by auto
  note p = padding_duplicates_last_leaf [OF t len]
  have c: "LeafCount t = 3" using p by simp
  have "LeafOffset t + 1 = nextPowerOfTwo 3" using p by simp
  then have o: "LeafOffset t = 3"
    by (simp add: nextPowerOfTwo_def orShifts_def int64_def)
  from p have "LeafCount t \<le> 3 \<and> 3 < LeafOffset t + 1 \<longrightarrow>
      Nodes t ! nat (LeafOffset t + 3) = Nodes t ! nat (LeafOffset t + LeafCount t - 1)"
    by blast
  then have s: "Nodes t ! 6 = Nodes t ! 5" by (simp add: c o)
  from p have "Nodes t ! nat (LeafOffset t + LeafCount t - 1) = hashData (last [''a'', ''b'', ''c''])"
    by blast
  then have "Nodes t ! 5 = hashData ''c''" by (simp add: c o)
  with t c o s show ?thesis by blast
qed

text \<open>
  C1, as the code has it. Every internal node of a built tree, at \<open>0 \<le> i < LeafOffset\<close>,
  holds \<^verbatim>\<open>hashNodes\<close> of its two children: the hexadecimal text of the SHA-256 digest
  of the bytes of the string \<^verbatim>\<open>left + right\<close>, where \<^verbatim>\<open>left\<close> and \<^verbatim>\<open>right\<close> are the
  children as they are stored, that is as hexadecimal text.
\<close>

theorem internal_node_hashes_children_text:
  assumes "NewTree data = Inr t" "length data < 2 ^ 60"
  shows "\<forall>i. 0 \<le> i \<and> i < LeafOffset t \<longrightarrow>
           Nodes t ! nat i =
             EncodeToString (Sum256 (Nodes t ! nat (2 * i + 1) @ Nodes t ! nat (2 * i + 2)))"
proof -
  have ne: "data \<noteq> []" using assms(1) by (auto simp: NewTree_def)
  from NewTree_shape [OF ne assms(2)]
  obtain nodes where
    s: "NewTree data = Inr \<lparr>Nodes = nodes, LeafData = data,
          LeafOffset = nextPowerOfTwo (int (length data)) - 1, LeafCount = int (length data)\<rparr>"
    and internal: "\<forall>j. 0 \<le> j \<and> j < nextPowerOfTwo (int (length data)) - 1 \<longrightarrow>
                nodes ! nat j = hashNodes (nodes ! nat (2 * j + 1)) (nodes ! nat (2 * j + 2))"
    by blast
  from s assms(1)
  have t: "Nodes t = nodes" "LeafOffset t = nextPowerOfTwo (int (length data)) - 1" by auto
  show ?thesis
    unfolding t using internal by (simp add: hashNodes_def)
qed

theorem internal_node_hashes_children_text_witness:
  "\<exists>t. NewTree [''a'', ''b''] = Inr t \<and>
        Nodes t ! 0 = EncodeToString (Sum256 (Nodes t ! 1 @ Nodes t ! 2))"
proof -
  have len: "length [''a'', ''b''] < 2 ^ 60" by simp
  from NewTree_shape [OF _ len]
  obtain t where t: "NewTree [''a'', ''b''] = Inr t"
    and "LeafOffset t = nextPowerOfTwo (int (length [''a'', ''b''])) - 1" by auto
  then have o: "LeafOffset t = 1"
    by (simp add: nextPowerOfTwo_def orShifts_def int64_def)
  from internal_node_hashes_children_text [OF t len]
  have "0 \<le> (0::int) \<and> 0 < LeafOffset t \<longrightarrow>
      Nodes t ! nat 0 = EncodeToString (Sum256 (Nodes t ! nat (2 * 0 + 1) @ Nodes t ! nat (2 * 0 + 2)))"
    by blast
  then have "Nodes t ! 0 = EncodeToString (Sum256 (Nodes t ! 1 @ Nodes t ! 2))"
    by (simp add: o)
  with t show ?thesis by blast
qed

section \<open>Verification\<close>




end
